theory Spec2Isabelle
  imports Main "HOL-Library.Sublist"
begin

section \<open>Byte slices and the library calls made by tree.go\<close>

text \<open>
  A Go byte slice is a list of bytes; a nil slice and an empty one both have length 0
  and are the empty list. Characters are bytes, so the box drawing symbols of the
  source are their UTF-8 encodings.
\<close>

type_synonym bytes = string

definition boxVerticalRight :: bytes where
  "boxVerticalRight = [CHR 0xE2, CHR 0x94, CHR 0x9C]"

definition boxHorizontal :: bytes where
  "boxHorizontal = [CHR 0xE2, CHR 0x94, CHR 0x80]"

definition boxVertical :: bytes where
  "boxVertical = [CHR 0xE2, CHR 0x94, CHR 0x82]"

definition boxUpRight :: bytes where
  "boxUpRight = [CHR 0xE2, CHR 0x94, CHR 0x94]"

definition boxSpace :: bytes where
  "boxSpace = [CHR 0x20]"

text \<open>
  The source writes \<open>boxHardSpace\<close> as a byte slice of the one rune U+00A0: a slice
  holding the single byte 0xA0, the last byte of the UTF-8 encoding C2 A0 of that rune.
\<close>

definition boxHardSpace :: bytes where
  "boxHardSpace = [CHR 0xA0]"

definition max_int :: "int \<Rightarrow> int \<Rightarrow> int" where
  "max_int i j = (if i > j then i else j)"

text \<open>
  Go's \<^verbatim>\<open>int\<close> has 64 bits and its arithmetic wraps around. The one sum the builder
  computes, \<^verbatim>\<open>len(glob)+depth-prevDepth\<close>, is computed where \<open>depth < prevDepth\<close>: it is
  less than \<^verbatim>\<open>len(glob)\<close>, which is an \<^verbatim>\<open>int\<close>, so it cannot leave the range upwards;
  below \<open>-2^63\<close> it wraps around by \<open>2^64\<close> (the addition and the subtraction wrap one
  after the other, with the same result).
\<close>

definition wrap_below :: "int \<Rightarrow> int" where
  "wrap_below x = (if x < - (2 ^ 63) then x + 2 ^ 64 else x)"

text \<open>
  \<^verbatim>\<open>bytes.Count(s, sep)\<close> for a non-empty \<open>sep\<close>: the number of non-overlapping
  occurrences, found from the left. The first argument of \<open>count_skip\<close> is the number
  of bytes still covered by the occurrence counted last.
\<close>

fun count_skip :: "nat \<Rightarrow> bytes \<Rightarrow> bytes \<Rightarrow> nat" where
  "count_skip k [] sep = 0"
| "count_skip k (c # s) sep =
     (if k = 0 \<and> prefix sep (c # s) then Suc (count_skip (length sep - 1) s sep)
      else count_skip (k - 1) s sep)"

definition Count :: "bytes \<Rightarrow> bytes \<Rightarrow> nat" where
  "Count s sep = count_skip 0 s sep"

text \<open>
  \<^verbatim>\<open>bytes.Index\<close> and \<^verbatim>\<open>bytes.LastIndex\<close>: the first and the last position at
  which \<open>sep\<close> starts; Go's result -1 is \<open>None\<close>.
\<close>

fun Index :: "bytes \<Rightarrow> bytes \<Rightarrow> nat option" where
  "Index [] sep = (if sep = [] then Some 0 else None)"
| "Index (c # s) sep =
     (if prefix sep (c # s) then Some 0 else map_option Suc (Index s sep))"

fun LastIndex :: "bytes \<Rightarrow> bytes \<Rightarrow> nat option" where
  "LastIndex [] sep = (if sep = [] then Some 0 else None)"
| "LastIndex (c # s) sep =
     (case LastIndex s sep of
        Some i \<Rightarrow> Some (Suc i)
      | None \<Rightarrow> if prefix sep (c # s) then Some 0 else None)"

definition HasSuffix :: "bytes \<Rightarrow> bytes \<Rightarrow> bool" where
  "HasSuffix s sfx = suffix sfx s"

text \<open>\<^verbatim>\<open>bytes.TrimRight(s, cutset)\<close> for a cutset of ASCII bytes.\<close>

definition TrimRight :: "bytes \<Rightarrow> bytes \<Rightarrow> bytes" where
  "TrimRight s cutset = rev (dropWhile (\<lambda>c. c \<in> set cutset) (rev s))"

text \<open>
  \<^verbatim>\<open>unicode.IsSpace\<close> on the runes of a byte slice, by their UTF-8 encodings: the six
  ASCII spaces; U+0085 and U+00A0 (two bytes); U+1680, U+2000 to U+200A, U+2028, U+2029,
  U+202F, U+205F and U+3000 (three bytes). A byte sequence that is not a valid encoding
  decodes to U+FFFD, which is not a space.
\<close>

definition space1 :: "char \<Rightarrow> bool" where
  "space1 a = (a \<in> set [CHR 0x09, CHR 0x0A, CHR 0x0B, CHR 0x0C, CHR 0x0D, CHR 0x20])"

definition space2 :: "char \<Rightarrow> char \<Rightarrow> bool" where
  "space2 a b = (a = CHR 0xC2 \<and> b \<in> set [CHR 0x85, CHR 0xA0])"

definition space3 :: "char \<Rightarrow> char \<Rightarrow> char \<Rightarrow> bool" where
  "space3 a b c =
     ((a = CHR 0xE1 \<and> b = CHR 0x9A \<and> c = CHR 0x80) \<or>
      (a = CHR 0xE2 \<and> b = CHR 0x80 \<and>
         c \<in> set [CHR 0x80, CHR 0x81, CHR 0x82, CHR 0x83, CHR 0x84, CHR 0x85, CHR 0x86,
                   CHR 0x87, CHR 0x88, CHR 0x89, CHR 0x8A, CHR 0xA8, CHR 0xA9, CHR 0xAF]) \<or>
      (a = CHR 0xE2 \<and> b = CHR 0x81 \<and> c = CHR 0x9F) \<or>
      (a = CHR 0xE3 \<and> b = CHR 0x80 \<and> c = CHR 0x80))"

text \<open>
  \<^verbatim>\<open>bytes.TrimLeftFunc(s, unicode.IsSpace)\<close> decodes runes from the left and drops them
  while they are spaces.
\<close>

fun TrimLeftSpace :: "bytes \<Rightarrow> bytes" where
  "TrimLeftSpace [] = []"
| "TrimLeftSpace [a] = (if space1 a then [] else [a])"
| "TrimLeftSpace [a, b] =
     (if space1 a then TrimLeftSpace [b] else if space2 a b then [] else [a, b])"
| "TrimLeftSpace (a # b # c # s) =
     (if space1 a then TrimLeftSpace (b # c # s)
      else if space2 a b then TrimLeftSpace (c # s)
      else if space3 a b c then TrimLeftSpace s
      else a # b # c # s)"

text \<open>
  \<^verbatim>\<open>bytes.TrimRightFunc(s, unicode.IsSpace)\<close> decodes the last rune and drops it while
  it is a space; \<open>trim_rev\<close> works on the reversed slice.
\<close>

fun trim_rev :: "bytes \<Rightarrow> bytes" where
  "trim_rev [] = []"
| "trim_rev [a] = (if space1 a then [] else [a])"
| "trim_rev [b, a] =
     (if space1 b then trim_rev [a] else if space2 a b then [] else [b, a])"
| "trim_rev (c # b # a # s) =
     (if space1 c then trim_rev (b # a # s)
      else if space2 b c then trim_rev (a # s)
      else if space3 a b c then trim_rev s
      else c # b # a # s)"

definition TrimRightSpace :: "bytes \<Rightarrow> bytes" where
  "TrimRightSpace s = rev (trim_rev (rev s))"

definition TrimSpace :: "bytes \<Rightarrow> bytes" where
  "TrimSpace s = TrimRightSpace (TrimLeftSpace s)"

text \<open>\<^verbatim>\<open>filepath.FromSlash\<close> where the path separator is the slash.\<close>

definition FromSlash :: "string \<Rightarrow> string" where
  "FromSlash p = p"

section \<open>Errors and the input stream\<close>

datatype error =
    EOF
  | ErrUnexpectedEOF
  | InvalidSyntax bytes
  | PathError string
  | ReadError string

text \<open>
  The \<^verbatim>\<open>io.Reader\<close> behind the buffered reader: the bytes it still delivers, and the
  error its reads end with once they are delivered (\<open>EOF\<close> for a clean end). The error is
  sticky: every later read gives it again, with no data.
\<close>

record reader =
  pending :: bytes
  fault :: error

definition NewReader :: "bytes \<Rightarrow> reader" where
  "NewReader p = \<lparr>pending = p, fault = EOF\<rparr>"

text \<open>
  \<^verbatim>\<open>buf.ReadBytes('\n')\<close>: the bytes up to and including the first newline, or, when
  there is none, all that is left together with the stream's error.
\<close>

definition ReadBytes :: "reader \<Rightarrow> bytes \<times> error option \<times> reader" where
  "ReadBytes r =
     (if CHR 0x0A \<in> set (pending r)
      then (takeWhile (\<lambda>c. c \<noteq> CHR 0x0A) (pending r) @ [CHR 0x0A], None,
            r\<lparr>pending := tl (dropWhile (\<lambda>c. c \<noteq> CHR 0x0A) (pending r))\<rparr>)
      else (pending r, Some (fault r), r\<lparr>pending := []\<rparr>))"

text \<open>\<^verbatim>\<open>io.Copy(ioutil.Discard, buf)\<close> reads the stream to its end.\<close>

definition Discard :: "reader \<Rightarrow> reader" where
  "Discard r = r\<lparr>pending := []\<rparr>"

section \<open>Directories\<close>

text \<open>
  A \<^verbatim>\<open>Directory\<close> is a Go map, a reference: the builder keeps the same map in its
  parent's entry, in \<open>dir\<close> and in \<open>glob\<close>, and writes through any of them. The store
  holds the maps made so far, a reference is an index into it. A node is a \<open>File\<close> or
  a reference to a \<open>Directory\<close>. The types \<^verbatim>\<open>Directory\<close>, \<^verbatim>\<open>File\<close> and \<^verbatim>\<open>FS\<close>
  are declared outside tree.go; \<^verbatim>\<open>FS\<close> is used through its one field, the root
  \<^verbatim>\<open>Directory\<close>, and is that reference here.
\<close>

type_synonym addr = nat

datatype node = File | Directory addr

type_synonym entries = "string \<rightharpoonup> node"

type_synonym heap = "entries list"

type_synonym FS = addr

definition new_Directory :: "heap \<Rightarrow> addr \<times> heap" where
  "new_Directory h = (length h, h @ [Map.empty])"

definition assign :: "heap \<Rightarrow> addr \<Rightarrow> string \<Rightarrow> node \<Rightarrow> heap" where
  "assign h d k v = h[d := (h ! d)(k \<mapsto> v)]"

section \<open>The line parsers\<close>

text \<open>
  A line parser returns the depth, the name and an error. The depth is an integer; both
  parsers of the source return a count that is at most the length of the line.
\<close>

type_synonym CustomTree = "bytes \<Rightarrow> int \<times> bytes \<times> error option"

definition Unix :: CustomTree where
  "Unix p =
     (let depth = int ((Count p boxSpace + Count p boxHardSpace + Count p boxVertical) div 4)
      in case LastIndex p boxHorizontal of
           None \<Rightarrow> (depth, [], Some (InvalidSyntax p))
         | Some n \<Rightarrow>
             (let name = drop n p
              in case Index name boxSpace of
                   None \<Rightarrow> (depth, name, Some (InvalidSyntax p))
                 | Some m \<Rightarrow> (depth, drop (m + 1) name, None)))"

definition Tab :: CustomTree where
  "Tab p = (let depth = Count p [CHR 0x09] in (int depth, drop depth p, None))"

section \<open>The tree builder\<close>

text \<open>
  The variables of \<^verbatim>\<open>CustomTree.Tree\<close>. The methods \<^verbatim>\<open>FS.MkdirAll\<close> and
  \<^verbatim>\<open>FS.lookup\<close> are outside tree.go and are parameters of the builder: \<open>MkdirAll\<close>
  may write to the store and may fail, \<open>lookup\<close> gives a directory of the store or fails.
\<close>

type_synonym MkdirAll = "heap \<Rightarrow> FS \<Rightarrow> string \<Rightarrow> heap \<times> error option"

type_synonym lookup = "heap \<Rightarrow> FS \<Rightarrow> string \<Rightarrow> error + addr"

record frame =
  heap :: heap
  fs :: FS
  dir :: addr
  glob :: "addr list"
  name :: bytes
  prevName :: bytes
  depth :: int
  prevDepth :: int
  line :: bytes
  err :: "error option"
  buf :: reader

datatype outcome = Panic | Return heap FS "error option" reader

text \<open>Lines 104 to 110: read a line; a blank one ends the scan, another is parsed.\<close>

definition scan :: "CustomTree \<Rightarrow> frame \<Rightarrow> frame" where
  "scan ct s =
     (case ReadBytes (buf s) of (l, e, b) \<Rightarrow>
        if length (TrimSpace l) = 0
        then s\<lparr>buf := Discard b, err := Some EOF, line := []\<rparr>
        else (case ct (TrimRightSpace l) of (d, n, e') \<Rightarrow>
                s\<lparr>buf := b, line := l, depth := d, name := n, err := e'\<rparr>))"

text \<open>
  Lines 119 to 123: the name and the value under which the previous node is inserted.
  \<^verbatim>\<open>Directory{}\<close> makes a new map.
\<close>

definition classify :: "heap \<Rightarrow> bytes \<Rightarrow> string \<times> node \<times> heap" where
  "classify h prev =
     (if HasSuffix prev ''/''
      then (case new_Directory h of (v, h') \<Rightarrow> (TrimRight prev ''/'', Directory v, h'))
      else (prev, File, h))"

text \<open>
  Lines 112 to 134: insert the node of the previous iteration. \<open>None\<close> is the run-time
  panic of \<^verbatim>\<open>glob[n]\<close> with \<open>n\<close> out of range; the operands of a tuple assignment
  are evaluated before any of it is assigned, so nothing is written then.
\<close>

definition insert_prev :: "frame \<Rightarrow> frame option" where
  "insert_prev s =
     (if length (prevName s) \<noteq> 0 then
        (case classify (heap s) (prevName s) of (key, val, h) \<Rightarrow>
           if depth s > prevDepth s then
             (case new_Directory h of (d, h') \<Rightarrow>
                Some (s\<lparr>heap := assign h' (dir s) key (Directory d),
                        glob := glob s @ [dir s], dir := d\<rparr>))
           else if depth s = prevDepth s then
             Some (s\<lparr>heap := assign h (dir s) key val\<rparr>)
           else
             (let n = nat (max_int (wrap_below (int (length (glob s)) + depth s - prevDepth s)) 0)
              in if n < length (glob s)
                 then Some (s\<lparr>heap := assign h (dir s) key val,
                              dir := glob s ! n, glob := take n (glob s)\<rparr>)
                 else None))
      else Some s)"

text \<open>One iteration of the loop of lines 103 to 144.\<close>

datatype step = Panicked | Finished frame | Continue frame

definition body :: "CustomTree \<Rightarrow> frame \<Rightarrow> step" where
  "body ct s =
     (case insert_prev (scan ct s) of
        None \<Rightarrow> Panicked
      | Some s' \<Rightarrow>
          if length (line s') = 0
          then Finished (if err s' = Some EOF then s'\<lparr>err := None\<rparr> else s')
          else Continue (s'\<lparr>prevDepth := depth s', prevName := name s'\<rparr>))"

function loop :: "CustomTree \<Rightarrow> frame \<Rightarrow> outcome" where
  "loop ct s =
     (case body ct s of
        Panicked \<Rightarrow> Panic
      | Finished s' \<Rightarrow> Return (heap s') (fs s') (err s') (buf s')
      | Continue s' \<Rightarrow> loop ct s')"
  by pat_completeness auto

lemma length_until_newline:
  "c \<in> set p \<Longrightarrow>
   Suc (length (takeWhile (\<lambda>x. x \<noteq> c) p) + length (tl (dropWhile (\<lambda>x. x \<noteq> c) p))) = length p"
  by (induction p) auto

lemma ReadBytes_length:
  assumes "ReadBytes r = (l, e, b)"
  shows "length (pending b) + length l = length (pending r)"
proof (cases "CHR 0x0A \<in> set (pending r)")
  case True
  with assms have "l = takeWhile (\<lambda>c. c \<noteq> CHR 0x0A) (pending r) @ [CHR 0x0A]"
    and "pending b = tl (dropWhile (\<lambda>c. c \<noteq> CHR 0x0A) (pending r))"
    by (auto simp: ReadBytes_def)
  with length_until_newline [OF True] show ?thesis by simp
next
  case False
  with assms have "l = pending r" and "pending b = []"
    by (auto simp: ReadBytes_def)
  then show ?thesis by simp
qed

lemma insert_prev_reads:
  assumes "insert_prev s = Some s'"
  shows "buf s' = buf s \<and> line s' = line s"
proof -
  obtain key val h where c: "classify (heap s) (prevName s) = (key, val, h)"
    by (cases "classify (heap s) (prevName s)") auto
  obtain d h' where n: "new_Directory h = (d, h')"
    by (cases "new_Directory h") auto
  show ?thesis
  proof (cases "prevName s = []")
    case True
    with assms show ?thesis by (simp add: insert_prev_def)
  next
    case False
    note ne = this
    show ?thesis
    proof (cases "depth s > prevDepth s")
      case True
      with assms ne c n show ?thesis by (simp add: insert_prev_def) auto
    next
      case False
      note ng = this
      show ?thesis
      proof (cases "depth s = prevDepth s")
        case True
        with assms ne c n show ?thesis by (simp add: insert_prev_def) auto
      next
        case False
        with assms ne ng c n show ?thesis
          by (simp add: insert_prev_def Let_def split: if_splits) auto
      qed
    qed
  qed
qed

lemma scan_blank:
  "ReadBytes (buf s) = (l, e, b) \<Longrightarrow> TrimSpace l = [] \<Longrightarrow>
   scan ct s = s\<lparr>buf := Discard b, err := Some EOF, line := []\<rparr>"
  by (simp add: scan_def)

lemma scan_parse:
  "ReadBytes (buf s) = (l, e, b) \<Longrightarrow> TrimSpace l \<noteq> [] \<Longrightarrow>
   ct (TrimRightSpace l) = (d, n, e') \<Longrightarrow>
   scan ct s = s\<lparr>buf := b, line := l, depth := d, name := n, err := e'\<rparr>"
  by (simp add: scan_def)

lemma TrimSpace_Nil: "TrimSpace [] = []"
  by (simp add: TrimSpace_def TrimRightSpace_def)

lemma scan_consumes:
  assumes "line (scan ct s) \<noteq> []"
  shows "length (pending (buf (scan ct s))) < length (pending (buf s))"
proof -
  obtain l e b where r: "ReadBytes (buf s) = (l, e, b)"
    by (cases "ReadBytes (buf s)") auto
  obtain d n e' where p: "ct (TrimRightSpace l) = (d, n, e')"
    by (cases "ct (TrimRightSpace l)") auto
  show ?thesis
  proof (cases "TrimSpace l = []")
    case True
    have "scan ct s = s\<lparr>buf := Discard b, err := Some EOF, line := []\<rparr>"
      using r True by (rule scan_blank)
    with assms show ?thesis by simp
  next
    case False
    then have "l \<noteq> []" using TrimSpace_Nil by auto
    with ReadBytes_length [OF r] have lt: "length (pending b) < length (pending (buf s))"
      by (cases l) auto
    have "scan ct s = s\<lparr>buf := b, line := l, depth := d, name := n, err := e'\<rparr>"
      using r False p by (rule scan_parse)
    with lt show ?thesis by simp
  qed
qed

lemma body_Continue_consumes:
  assumes "body ct s = Continue s'"
  shows "length (pending (buf s')) < length (pending (buf s))"
proof (cases "insert_prev (scan ct s)")
  case None
  with assms show ?thesis by (simp add: body_def)
next
  case (Some t)
  show ?thesis
  proof (cases "line t = []")
    case True
    with assms Some show ?thesis by (simp add: body_def)
  next
    case False
    with assms Some have s': "s' = t\<lparr>prevDepth := depth t, prevName := name t\<rparr>"
      by (simp add: body_def)
    have bl: "buf t = buf (scan ct s)" "line t = line (scan ct s)"
      using insert_prev_reads [OF Some] by simp_all
    with False have "length (pending (buf (scan ct s))) < length (pending (buf s))"
      by (intro scan_consumes) simp
    with bl s' show ?thesis by simp
  qed
qed

termination loop
proof (relation "measure (\<lambda>(ct, s). length (pending (buf s)))")
  show "wf (measure (\<lambda>(ct, s). length (pending (buf s))))" by simp
next
  fix ct :: CustomTree and s x3 :: frame
  assume "body ct s = Continue x3"
  then have "length (pending (buf x3)) < length (pending (buf s))"
    by (rule body_Continue_consumes)
  then show "((ct, x3), (ct, s)) \<in> measure (\<lambda>(ct, s). length (pending (buf s)))"
    by simp
qed

text \<open>The frame after line 102: the root is on the stack, nothing is buffered.\<close>

definition start :: "heap \<Rightarrow> FS \<Rightarrow> addr \<Rightarrow> reader \<Rightarrow> frame" where
  "start h f d b =
     \<lparr>heap = h, fs = f, dir = d, glob = [d], name = [], prevName = [],
      depth = 0, prevDepth = 0, line = [], err = None, buf = b\<rparr>"

definition Tree :: "CustomTree \<Rightarrow> MkdirAll \<Rightarrow> lookup \<Rightarrow> reader \<Rightarrow> outcome" where
  "Tree ct mkdirAll lookup r =
     (case new_Directory [] of (dir0, h) \<Rightarrow>
      case ReadBytes r of (l, e, b) \<Rightarrow>
        if length l = 0 \<or> e = Some EOF then Return h dir0 (Some ErrUnexpectedEOF) b
        else if e \<noteq> None then Return h dir0 e b
        else if length l \<noteq> 1 \<or> hd l \<noteq> CHR ''.'' then
          (let p = FromSlash (TrimSpace l)
           in case mkdirAll h dir0 p of
                (h1, Some e1) \<Rightarrow> Return h1 dir0 (Some e1) b
              | (h1, None) \<Rightarrow>
                  (case lookup h1 dir0 p of
                     Inl e2 \<Rightarrow> Return h1 dir0 (Some e2) b
                   | Inr d \<Rightarrow> loop ct (start h1 dir0 d b)))
        else loop ct (start h dir0 dir0 b))"

text \<open>\<^verbatim>\<open>UnixTree\<close> and \<^verbatim>\<open>TabTree\<close> read a byte slice.\<close>

definition UnixTree :: "MkdirAll \<Rightarrow> lookup \<Rightarrow> bytes \<Rightarrow> outcome" where
  "UnixTree mkdirAll lookup p = Tree Unix mkdirAll lookup (NewReader p)"

definition TabTree :: "MkdirAll \<Rightarrow> lookup \<Rightarrow> bytes \<Rightarrow> outcome" where
  "TabTree mkdirAll lookup p = Tree Tab mkdirAll lookup (NewReader p)"

text \<open>
  Modelled from the spec: \<^verbatim>\<open>FS.MkdirAll\<close> and \<^verbatim>\<open>FS.lookup\<close> are outside tree.go.
  The theorems below hold for every pair of them. Where a concrete input is evaluated, they
  are this pair, which knows the root only: the path \<open>.\<close> exists and is the root
  directory, every other path is refused.
\<close>

definition root_MkdirAll :: MkdirAll where
  "root_MkdirAll h f p = (if p = ''.'' then (h, None) else (h, Some (PathError p)))"

definition root_lookup :: lookup where
  "root_lookup h f p = (if p = ''.'' then Inr f else Inl (PathError p))"

section \<open>Observing a build\<close>

text \<open>
  For the evaluations on concrete inputs: the lines of an input, each ended by a newline,
  and the frame at the head of the loop after a number of complete iterations.
\<close>

definition unlines :: "bytes list \<Rightarrow> bytes" where
  "unlines ls = concat (map (\<lambda>l. l @ [CHR 0x0A]) ls)"

fun after :: "nat \<Rightarrow> CustomTree \<Rightarrow> frame \<Rightarrow> frame option" where
  "after 0 ct s = Some s"
| "after (Suc k) ct s =
     (case body ct s of Continue s' \<Rightarrow> after k ct s' | Finished s' \<Rightarrow> None | Panicked \<Rightarrow> None)"

text \<open>The number of positions of a line at which a byte sequence starts.\<close>

fun occurrences :: "bytes \<Rightarrow> bytes \<Rightarrow> nat" where
  "occurrences [] sep = 0"
| "occurrences (c # s) sep = (if prefix sep (c # s) then 1 else 0) + occurrences s sep"

text \<open>The index \<open>n\<close> of line 131.\<close>

definition cut_index :: "frame \<Rightarrow> nat" where
  "cut_index s =
     nat (max_int (wrap_below (int (length (glob s)) + depth s - prevDepth s)) 0)"

text \<open>
  An ascent clamps when it cuts the whole stack or would cut more: the index
  \<open>len(glob)+depth-prevDepth\<close> is not positive, \<open>n\<close> is 0 and the stack is left empty.
\<close>

definition clamps :: "frame \<Rightarrow> bool" where
  "clamps s = (prevName s \<noteq> [] \<and> depth s < prevDepth s \<and>
               int (length (glob s)) + depth s - prevDepth s \<le> 0)"

text \<open>None of the first \<open>k\<close> iterations from \<open>s\<close> has an ascent that clamps.\<close>

fun within_levels :: "nat \<Rightarrow> CustomTree \<Rightarrow> frame \<Rightarrow> bool" where
  "within_levels 0 ct s = True"
| "within_levels (Suc k) ct s =
     (\<not> clamps (scan ct s) \<and>
      (case body ct s of
         Continue s' \<Rightarrow> within_levels k ct s'
       | Finished s' \<Rightarrow> True
       | Panicked \<Rightarrow> True))"

text \<open>
  The shape of the stack: it starts with the root; its other entries followed by the
  current directory are pairwise different directories of the store, the first of them
  the root again.
\<close>

definition stack_ok :: "addr \<Rightarrow> frame \<Rightarrow> bool" where
  "stack_ok root s =
     (glob s \<noteq> [] \<and> hd (glob s) = root \<and> hd (tl (glob s) @ [dir s]) = root \<and>
      distinct (tl (glob s) @ [dir s]) \<and> dir s < length (heap s) \<and>
      (\<forall>a \<in> set (glob s). a < length (heap s)))"

section \<open>Reading the first line\<close>

lemma ReadBytes_no_newline:
  "CHR 0x0A \<notin> set (pending r) \<Longrightarrow>
   ReadBytes r = (pending r, Some (fault r), r\<lparr>pending := []\<rparr>)"
  by (simp add: ReadBytes_def)

lemma ReadBytes_newline:
  "CHR 0x0A \<in> set (pending r) \<Longrightarrow>
   ReadBytes r = (takeWhile (\<lambda>c. c \<noteq> CHR 0x0A) (pending r) @ [CHR 0x0A], None,
                  r\<lparr>pending := tl (dropWhile (\<lambda>c. c \<noteq> CHR 0x0A) (pending r))\<rparr>)"
  by (simp add: ReadBytes_def)

lemma ReadBytes_line:
  assumes "ReadBytes r = (l, None, b)"
  shows "l \<noteq> [] \<and> last l = CHR 0x0A"
proof (cases "CHR 0x0A \<in> set (pending r)")
  case True
  from ReadBytes_newline [OF True] assms show ?thesis by auto
next
  case False
  from ReadBytes_no_newline [OF False] assms show ?thesis by simp
qed

lemma dot_test:
  assumes "ReadBytes r = (l, None, b)"
  shows "length l \<noteq> 1 \<or> hd l \<noteq> CHR ''.''"
proof (cases l)
  case Nil
  then show ?thesis by simp
next
  case (Cons x xs)
  show ?thesis
  proof (cases xs)
    case Nil
    with Cons ReadBytes_line [OF assms] show ?thesis by simp
  next
    case (Cons y ys)
    with \<open>l = x # xs\<close> show ?thesis by simp
  qed
qed

lemma Tree_first_line:
  assumes "ReadBytes r = (l, None, b)"
  shows "Tree ct mkdirAll lookup r =
           (case mkdirAll [Map.empty] 0 (TrimSpace l) of
              (h1, Some e1) \<Rightarrow> Return h1 0 (Some e1) b
            | (h1, None) \<Rightarrow>
                (case lookup h1 0 (TrimSpace l) of
                   Inl e2 \<Rightarrow> Return h1 0 (Some e2) b
                 | Inr d \<Rightarrow> loop ct (start h1 0 d b)))"
proof -
  from ReadBytes_line [OF assms] have "l \<noteq> []" by simp
  with assms dot_test [OF assms] show ?thesis
    by (simp add: Tree_def new_Directory_def FromSlash_def Let_def)
qed

text \<open>
  C8. When the first read of the stream ends with the end of the stream, whether it
  delivered no byte at all (the empty input) or some bytes without a newline, the build
  returns the error \<open>ErrUnexpectedEOF\<close>: it neither panics nor returns without an error.
\<close>

theorem Tree_first_read_EOF:
  assumes "ReadBytes r = (l, Some EOF, b)"
  shows "Tree ct mkdirAll lookup r = Return [Map.empty] 0 (Some ErrUnexpectedEOF) b"
  using assms by (simp add: Tree_def new_Directory_def)

theorem Tree_first_read_EOF_witness:
  "ReadBytes (NewReader []) = ([], Some EOF, NewReader []) \<and>
   Tree Unix root_MkdirAll root_lookup (NewReader []) =
     Return [Map.empty] 0 (Some ErrUnexpectedEOF) (NewReader [])"
proof -
  have r: "ReadBytes (NewReader []) = ([], Some EOF, NewReader [])"
    by (simp add: ReadBytes_def NewReader_def)
  from r Tree_first_read_EOF [OF r] show ?thesis by simp
qed

text \<open>
  C10. On a byte slice without any newline the build returns \<open>ErrUnexpectedEOF\<close>, also
  when the slice is a root line that would be valid with its newline, such as the single
  byte \<open>.\<close>: the first read then gives its data together with the end of the stream.
\<close>

theorem Tree_no_newline:
  assumes "CHR 0x0A \<notin> set p"
  shows "Tree ct mkdirAll lookup (NewReader p) =
         Return [Map.empty] 0 (Some ErrUnexpectedEOF) (NewReader [])"
proof -
  have "ReadBytes (NewReader p) = (p, Some EOF, NewReader [])"
    using assms by (simp add: ReadBytes_def NewReader_def)
  then show ?thesis by (simp add: Tree_def new_Directory_def)
qed

theorem Tree_no_newline_witness:
  "CHR 0x0A \<notin> set ''.'' \<and>
   Tree Tab root_MkdirAll root_lookup (NewReader ''.'') =
     Return [Map.empty] 0 (Some ErrUnexpectedEOF) (NewReader [])"
proof -
  have n: "CHR 0x0A \<notin> set ''.''" by simp
  from n Tree_no_newline [OF n] show ?thesis by simp
qed



section \<open>Properties of the line parsers\<close>

lemma count_skip_single:
  "count_skip 0 s [c] = length (filter (\<lambda>x. x = c) s)"
  by (induction s) auto

lemma Count_single: "Count s [c] = length (filter (\<lambda>x. x = c) s)"
  by (simp add: Count_def count_skip_single)

lemma Index_single:
  "Index s [c] = (if c \<in> set s then Some (length (takeWhile (\<lambda>x. x \<noteq> c) s)) else None)"
  by (induction s) auto

lemma LastIndex_None:
  "sep \<noteq> [] \<Longrightarrow> (LastIndex p sep = None) = (\<not> sublist sep p)"
  by (induction p) (auto simp: sublist_Cons_right split: option.splits)

lemma LastIndex_last:
  "sep \<noteq> [] \<Longrightarrow> \<not> sublist sep (tl (sep @ post)) \<Longrightarrow>
   LastIndex (pre @ sep @ post) sep = Some (length pre)"
proof (induction pre)
  case Nil
  then obtain c sep' where s: "sep = c # sep'" by (cases sep) auto
  with Nil have "LastIndex (sep' @ post) sep = None"
    by (simp add: LastIndex_None)
  with s show ?case by simp
next
  case (Cons a pre)
  then show ?case by simp
qed

lemma LastIndex_Some:
  "sep \<noteq> [] \<Longrightarrow> LastIndex p sep = Some k \<Longrightarrow>
   \<exists>pre post. p = pre @ sep @ post \<and> length pre = k \<and> \<not> sublist sep (tl (sep @ post))"
proof (induction p arbitrary: k)
  case Nil
  then show ?case by simp
next
  case (Cons c s)
  show ?case
  proof (cases "LastIndex s sep")
    case None
    with Cons.prems have k: "k = 0" and pre: "prefix sep (c # s)"
      by (auto split: if_splits)
    from pre obtain post where p: "c # s = sep @ post"
      by (auto simp: prefix_def)
    then have "tl (sep @ post) = s"
      by (metis list.sel(3))
    with None Cons.prems(1) have "\<not> sublist sep (tl (sep @ post))"
      by (simp add: LastIndex_None)
    with k p show ?thesis by (intro exI [of _ "[]"] exI [of _ post]) simp
  next
    case (Some i)
    with Cons.prems have k: "k = Suc i" by simp
    from Cons.IH [OF Cons.prems(1) Some] obtain pre post
      where "s = pre @ sep @ post" "length pre = i" "\<not> sublist sep (tl (sep @ post))"
      by blast
    with k show ?thesis by (intro exI [of _ "c # pre"] exI [of _ post]) simp
  qed
qed

lemma boxHorizontal_tail:
  "sublist boxHorizontal (tl (boxHorizontal @ post)) = sublist boxHorizontal post"
  by (simp add: boxHorizontal_def sublist_Cons_right)

lemma Unix_depth:
  "fst (Unix p) =
   int ((Count p boxSpace + Count p boxHardSpace + Count p boxVertical) div 4)"
  by (simp add: Unix_def Let_def split: option.split)

lemma Unix_error:
  "snd (snd (Unix p)) = None \<or> snd (snd (Unix p)) = Some (InvalidSyntax p)"
  by (simp add: Unix_def Let_def split: option.split)

lemma Unix_found:
  assumes p: "p = pre @ boxHorizontal @ mid @ CHR 0x20 # nm"
    and last: "\<not> sublist boxHorizontal (mid @ CHR 0x20 # nm)"
    and mid: "CHR 0x20 \<notin> set mid"
  shows "snd (Unix p) = (nm, None)"
proof -
  have "LastIndex p boxHorizontal = Some (length pre)"
    unfolding p using last
    by (intro LastIndex_last) (simp_all add: boxHorizontal_tail, simp add: boxHorizontal_def)
  moreover have "drop (length pre) p = boxHorizontal @ mid @ CHR 0x20 # nm"
    by (simp add: p)
  moreover have "takeWhile (\<lambda>x. x \<noteq> CHR 0x20) (boxHorizontal @ mid @ CHR 0x20 # nm)
                 = boxHorizontal @ mid"
  proof -
    have "takeWhile (\<lambda>x. x \<noteq> CHR 0x20) ((boxHorizontal @ mid) @ CHR 0x20 # nm)
          = (boxHorizontal @ mid) @ takeWhile (\<lambda>x. x \<noteq> CHR 0x20) (CHR 0x20 # nm)"
      using mid by (intro takeWhile_append2) (auto simp: boxHorizontal_def)
    then show ?thesis by simp
  qed
  ultimately show ?thesis
    by (simp add: Unix_def Let_def Index_single boxSpace_def)
qed

lemma Unix_no_error:
  assumes "snd (snd (Unix p)) = None"
  shows "\<exists>pre mid nm. p = pre @ boxHorizontal @ mid @ CHR 0x20 # nm \<and>
           \<not> sublist boxHorizontal (mid @ CHR 0x20 # nm) \<and> CHR 0x20 \<notin> set mid"
proof (cases "LastIndex p boxHorizontal")
  case None
  with assms show ?thesis by (simp add: Unix_def Let_def)
next
  case (Some k)
  have ne: "boxHorizontal \<noteq> []" by (simp add: boxHorizontal_def)
  from LastIndex_Some [OF ne Some] obtain pre post
    where p: "p = pre @ boxHorizontal @ post" and k: "length pre = k"
      and last: "\<not> sublist boxHorizontal post"
    by (auto simp: boxHorizontal_tail)
  have d: "drop k p = boxHorizontal @ post"
    using p k by simp
  from assms Some d have "CHR 0x20 \<in> set (boxHorizontal @ post)"
    by (simp add: Unix_def Let_def Index_single boxSpace_def split: if_splits)
  then have "CHR 0x20 \<in> set post" by (simp add: boxHorizontal_def)
  then obtain mid nm where s: "post = mid @ CHR 0x20 # nm" "CHR 0x20 \<notin> set mid"
    by (meson split_list_first)
  with p last show ?thesis by blast
qed

text \<open>
  The name and the error of the \<open>Unix\<close> strategy: it returns no error exactly when the
  line holds a horizontal glyph and a space follows the last one, and the name is then the
  text after the first such space; otherwise the error is the syntax error that carries
  the line.
\<close>

lemma Unix_name_and_error:
  "(snd (snd (Unix p)) = None \<or> snd (snd (Unix p)) = Some (InvalidSyntax p)) \<and>
   (snd (snd (Unix p)) = None \<longleftrightarrow>
      (\<exists>pre mid nm. p = pre @ boxHorizontal @ mid @ CHR 0x20 # nm \<and>
         \<not> sublist boxHorizontal (mid @ CHR 0x20 # nm) \<and> CHR 0x20 \<notin> set mid)) \<and>
   (\<forall>pre mid nm. p = pre @ boxHorizontal @ mid @ CHR 0x20 # nm \<longrightarrow>
      \<not> sublist boxHorizontal (mid @ CHR 0x20 # nm) \<longrightarrow> CHR 0x20 \<notin> set mid \<longrightarrow>
      fst (snd (Unix p)) = nm)"
proof (intro conjI allI impI iffI)
  show "snd (snd (Unix p)) = None \<or> snd (snd (Unix p)) = Some (InvalidSyntax p)"
    by (rule Unix_error)
next
  assume "snd (snd (Unix p)) = None"
  then show "\<exists>pre mid nm. p = pre @ boxHorizontal @ mid @ CHR 0x20 # nm \<and>
         \<not> sublist boxHorizontal (mid @ CHR 0x20 # nm) \<and> CHR 0x20 \<notin> set mid"
    by (rule Unix_no_error)
next
  assume "\<exists>pre mid nm. p = pre @ boxHorizontal @ mid @ CHR 0x20 # nm \<and>
         \<not> sublist boxHorizontal (mid @ CHR 0x20 # nm) \<and> CHR 0x20 \<notin> set mid"
  then obtain pre mid nm where "p = pre @ boxHorizontal @ mid @ CHR 0x20 # nm"
    "\<not> sublist boxHorizontal (mid @ CHR 0x20 # nm)" "CHR 0x20 \<notin> set mid"
    by blast
  then have "snd (Unix p) = (nm, None)" by (rule Unix_found)
  then show "snd (snd (Unix p)) = None" by simp
next
  fix pre mid nm
  assume "p = pre @ boxHorizontal @ mid @ CHR 0x20 # nm"
    "\<not> sublist boxHorizontal (mid @ CHR 0x20 # nm)" "CHR 0x20 \<notin> set mid"
  then have "snd (Unix p) = (nm, None)" by (rule Unix_found)
  then show "fst (snd (Unix p)) = nm" by simp
qed

text \<open>
  The occurrences of the vertical glyph cannot overlap, so \<^verbatim>\<open>bytes.Count\<close> counts every
  position at which the glyph starts.
\<close>

lemma count_skip_drop: "count_skip k s sep = count_skip 0 (drop k s) sep"
proof (induction s arbitrary: k)
  case Nil
  then show ?case by simp
next
  case (Cons c s)
  show ?case
  proof (cases k)
    case 0
    then show ?thesis by simp
  next
    case (Suc j)
    with Cons [of j] show ?thesis by simp
  qed
qed

lemma Count_boxVertical: "Count s boxVertical = occurrences s boxVertical"
proof (induction s rule: length_induct)
  case (1 s)
  show ?case
  proof (cases s)
    case Nil
    then show ?thesis by (simp add: Count_def)
  next
    case (Cons c t)
    show ?thesis
    proof (cases "prefix boxVertical (c # t)")
      case True
      then obtain rest where r: "c # t = boxVertical @ rest"
        by (auto simp: prefix_def)
      then have t: "t = CHR 0x94 # CHR 0x82 # rest" by (simp add: boxVertical_def)
      have "length rest < length s" using Cons t by simp
      with "1.IH" have ih: "Count rest boxVertical = occurrences rest boxVertical" by simp
      have c1: "Count s boxVertical = Suc (count_skip (length boxVertical - 1) t boxVertical)"
        using Cons True by (simp add: Count_def)
      have c2: "count_skip (length boxVertical - 1) t boxVertical
                = count_skip 0 (drop (length boxVertical - 1) t) boxVertical"
        by (rule count_skip_drop)
      have c3: "drop (length boxVertical - 1) t = rest"
        using t by (simp add: boxVertical_def)
      from c1 c2 c3 ih have "Count s boxVertical = Suc (occurrences rest boxVertical)"
        by (simp add: Count_def)
      moreover have "occurrences s boxVertical = Suc (occurrences rest boxVertical)"
        using Cons True t by (auto simp: boxVertical_def)
      ultimately show ?thesis by simp
    next
      case False
      have "length t < length s" using Cons by simp
      with "1.IH" have ih: "Count t boxVertical = occurrences t boxVertical" by simp
      have "Count s boxVertical = count_skip 0 t boxVertical"
        using Cons False by (simp add: Count_def)
      with ih Cons False show ?thesis by (simp add: Count_def)
    qed
  qed
qed

text \<open>
  C6. The \<open>Unix\<close> strategy returns as depth a quarter of the number of bytes 0x20, of
  bytes 0xA0 and of vertical glyphs of the whole line, the name included, and not of the
  glyphs that indent the line. The line \<open>\<open>corner\<close>\<open>horizontal\<close>\<open>horizontal\<close> a b c d\<close> begins
  with the corner glyph, so nothing indents it, and gets depth 1 for the four spaces
  after the glyphs. The same line with a name of four letters \<open>a\<close> with grave accent
  (bytes C3 A0 each) holds neither an indentation nor a non-breaking space (C2 A0) and
  gets depth 1 for one space and the four bytes 0xA0 of the name.
\<close>

theorem Unix_counts_whole_line:
  "fst (Unix p) =
     int ((length (filter (\<lambda>c. c = CHR 0x20) p) + length (filter (\<lambda>c. c = CHR 0xA0) p) +
           occurrences p boxVertical) div 4)"
  using Unix_depth [of p]
  by (simp add: boxSpace_def boxHardSpace_def Count_single Count_boxVertical)

theorem Unix_counts_whole_line_witness:
  "take 3 (boxUpRight @ boxHorizontal @ boxHorizontal @ '' a b c d'') = boxUpRight \<and>
   fst (Unix (boxUpRight @ boxHorizontal @ boxHorizontal @ '' a b c d'')) = 1 \<and>
   fst (Unix (boxUpRight @ boxHorizontal @ boxHorizontal @ '' '' @
        [CHR 0xC3, CHR 0xA0, CHR 0xC3, CHR 0xA0, CHR 0xC3, CHR 0xA0, CHR 0xC3, CHR 0xA0])) = 1"
proof (intro conjI)
  show "take 3 (boxUpRight @ boxHorizontal @ boxHorizontal @ '' a b c d'') = boxUpRight"
    by (simp add: boxUpRight_def)
  show "fst (Unix (boxUpRight @ boxHorizontal @ boxHorizontal @ '' a b c d'')) = 1"
    using Unix_counts_whole_line [of "boxUpRight @ boxHorizontal @ boxHorizontal @ '' a b c d''"]
    by (simp add: boxUpRight_def boxHorizontal_def boxVertical_def)
  show "fst (Unix (boxUpRight @ boxHorizontal @ boxHorizontal @ '' '' @
        [CHR 0xC3, CHR 0xA0, CHR 0xC3, CHR 0xA0, CHR 0xC3, CHR 0xA0, CHR 0xC3, CHR 0xA0])) = 1"
    using Unix_counts_whole_line [of "boxUpRight @ boxHorizontal @ boxHorizontal @ '' '' @
        [CHR 0xC3, CHR 0xA0, CHR 0xC3, CHR 0xA0, CHR 0xC3, CHR 0xA0, CHR 0xC3, CHR 0xA0]"]
    by (simp add: boxUpRight_def boxHorizontal_def boxVertical_def)
qed

text \<open>
  C7. The \<open>Tab\<close> strategy returns as depth the number of all tab characters of the
  line, not only of those that prefix it; the name is the line without its first
  \<open>depth\<close> bytes, and no error is returned. On a line with a tab after its first other
  character the depth is therefore not the number of prefixing tabs, and the name has
  lost bytes that are no tabs.
\<close>

theorem Tab_counts_every_tab:
  "Tab p = (int (length (filter (\<lambda>c. c = CHR 0x09) p)),
            drop (length (filter (\<lambda>c. c = CHR 0x09) p)) p, None)"
  by (simp add: Tab_def Let_def Count_single)

theorem Tab_counts_every_tab_witness:
  "Tab (''a'' @ [CHR 0x09] @ ''b'') = (1, [CHR 0x09] @ ''b'', None) \<and>
   length (takeWhile (\<lambda>c. c = CHR 0x09) (''a'' @ [CHR 0x09] @ ''b'')) = 0"
  using Tab_counts_every_tab [of "''a'' @ [CHR 0x09] @ ''b''"] by simp

lemma Tab_leading_tabs:
  assumes "CHR 0x09 \<notin> set rest"
  shows "Tab (replicate n (CHR 0x09) @ rest) = (int n, rest, None)"
proof -
  have "filter (\<lambda>c. c = CHR 0x09) rest = []"
    using assms by (induction rest) auto
  then show ?thesis by (simp add: Tab_def Let_def Count_single)
qed

section \<open>Inserting the previous node\<close>

lemma classify_Directory:
  "HasSuffix prev ''/'' \<Longrightarrow>
   classify h prev = (TrimRight prev ''/'', Directory (length h), h @ [Map.empty])"
  by (simp add: classify_def new_Directory_def)

lemma classify_File:
  "\<not> HasSuffix prev ''/'' \<Longrightarrow> classify h prev = (prev, File, h)"
  by (simp add: classify_def)

lemma classify_length:
  "classify h prev = (key, val, h') \<Longrightarrow> length h \<le> length h' \<and> (\<forall>a < length h. h' ! a = h ! a)"
  by (cases "HasSuffix prev ''/''") (auto simp: classify_Directory classify_File nth_append)

lemma assign_length: "length (assign h d k v) = length h"
  by (simp add: assign_def)

lemma assign_same: "d < length h \<Longrightarrow> (assign h d k v ! d) k = Some v"
  by (simp add: assign_def)

lemma assign_other: "a \<noteq> d \<Longrightarrow> assign h d k v ! a = h ! a"
  by (simp add: assign_def)

lemma insert_prev_skip: "prevName s = [] \<Longrightarrow> insert_prev s = Some s"
  by (simp add: insert_prev_def)

lemma insert_prev_descend:
  "prevName s \<noteq> [] \<Longrightarrow> classify (heap s) (prevName s) = (key, val, h) \<Longrightarrow>
   depth s > prevDepth s \<Longrightarrow>
   insert_prev s = Some (s\<lparr>heap := assign (h @ [Map.empty]) (dir s) key (Directory (length h)),
                           glob := glob s @ [dir s], dir := length h\<rparr>)"
  by (simp add: insert_prev_def new_Directory_def)

lemma insert_prev_sibling:
  "prevName s \<noteq> [] \<Longrightarrow> classify (heap s) (prevName s) = (key, val, h) \<Longrightarrow>
   depth s = prevDepth s \<Longrightarrow>
   insert_prev s = Some (s\<lparr>heap := assign h (dir s) key val\<rparr>)"
  by (simp add: insert_prev_def)

lemma cut_index_no_wrap:
  "- (2 ^ 63) \<le> int (length (glob s)) + depth s - prevDepth s \<Longrightarrow>
   cut_index s = nat (int (length (glob s)) - (prevDepth s - depth s))"
  by (auto simp: cut_index_def wrap_below_def max_int_def algebra_simps)

lemma insert_prev_ascend:
  "prevName s \<noteq> [] \<Longrightarrow> classify (heap s) (prevName s) = (key, val, h) \<Longrightarrow>
   depth s < prevDepth s \<Longrightarrow> cut_index s < length (glob s) \<Longrightarrow>
   insert_prev s =
     Some (s\<lparr>heap := assign h (dir s) key val,
             dir := glob s ! cut_index s, glob := take (cut_index s) (glob s)\<rparr>)"
  by (simp add: insert_prev_def Let_def cut_index_def)

lemma insert_prev_panic:
  "prevName s \<noteq> [] \<Longrightarrow> depth s < prevDepth s \<Longrightarrow> \<not> cut_index s < length (glob s) \<Longrightarrow>
   insert_prev s = None"
  by (cases "classify (heap s) (prevName s)") (simp add: insert_prev_def Let_def cut_index_def)

text \<open>
  With one entry on the stack, the least \<^verbatim>\<open>int\<close> as depth and the greatest as previous
  depth, the sum of line 131 wraps around to 2, and \<^verbatim>\<open>glob[2]\<close> is out of range.
\<close>

lemma insert_prev_wrapped_index:
  "insert_prev ((start [Map.empty] 0 0 (NewReader []))
       \<lparr>prevName := ''x'', prevDepth := 2 ^ 63 - 1, depth := - (2 ^ 63)\<rparr>) = None"
  by (rule insert_prev_panic)
     (simp_all add: cut_index_def wrap_below_def max_int_def start_def)

lemma insert_prev_cases:
  assumes "prevName s \<noteq> []" and "classify (heap s) (prevName s) = (key, val, h)"
    and "insert_prev s = Some s'"
  obtains
    (descend) "depth s > prevDepth s"
      "s' = s\<lparr>heap := assign (h @ [Map.empty]) (dir s) key (Directory (length h)),
               glob := glob s @ [dir s], dir := length h\<rparr>"
  | (sibling) "depth s = prevDepth s" "s' = s\<lparr>heap := assign h (dir s) key val\<rparr>"
  | (ascend) "depth s < prevDepth s" "glob s \<noteq> []"
      "s' = s\<lparr>heap := assign h (dir s) key val,
               dir := glob s ! cut_index s, glob := take (cut_index s) (glob s)\<rparr>"
      "cut_index s < length (glob s)"
proof -
  consider "depth s > prevDepth s" | "depth s = prevDepth s" | "depth s < prevDepth s"
    by linarith
  then show thesis
  proof cases
    case 1
    from insert_prev_descend [OF assms(1,2) 1] assms(3) descend 1 show thesis by simp
  next
    case 2
    from insert_prev_sibling [OF assms(1,2) 2] assms(3) sibling 2 show thesis by simp
  next
    case 3
    have lt: "cut_index s < length (glob s)"
    proof (rule ccontr)
      assume "\<not> cut_index s < length (glob s)"
      from insert_prev_panic [OF assms(1) 3 this] assms(3) show False by simp
    qed
    then have g: "glob s \<noteq> []" by auto
    from insert_prev_ascend [OF assms(1,2) 3 lt] assms(3) ascend 3 g lt show thesis by simp
  qed
qed

lemma classify_key:
  "classify h prev = (key, val, h') \<Longrightarrow>
   key = (if HasSuffix prev ''/'' then TrimRight prev ''/'' else prev)"
  by (cases "HasSuffix prev ''/''") (auto simp: classify_Directory classify_File)

text \<open>
  C5. Whenever the builder inserts the buffered previous node into the current directory:
  if the raw name ends with \<open>/\<close>, the entry is written under the name without its
  trailing slashes and is a new, empty directory; if the line that follows is deeper, the
  entry is a new, empty directory as well; in every other case the entry is a \<open>File\<close>
  under the raw name.
\<close>

theorem insert_prev_classification:
  assumes "prevName s \<noteq> []" and "dir s < length (heap s)" and "insert_prev s = Some s'"
  shows "(HasSuffix (prevName s) ''/'' \<or> depth s > prevDepth s \<longrightarrow>
            (\<exists>d. (heap s' ! dir s)
                   (if HasSuffix (prevName s) ''/'' then TrimRight (prevName s) ''/''
                    else prevName s) = Some (Directory d) \<and>
                 length (heap s) \<le> d \<and> d < length (heap s') \<and> heap s' ! d = Map.empty)) \<and>
         (\<not> HasSuffix (prevName s) ''/'' \<and> depth s \<le> prevDepth s \<longrightarrow>
            (heap s' ! dir s) (prevName s) = Some File)"
proof -
  obtain key val h where c: "classify (heap s) (prevName s) = (key, val, h)"
    by (cases "classify (heap s) (prevName s)") auto
  note k = classify_key [OF c]
  from classify_length [OF c] have len: "length (heap s) \<le> length h" by simp
  with assms(2) have v: "dir s < length h" by simp
  from assms(1) c assms(3) show ?thesis
  proof (cases rule: insert_prev_cases)
    case descend
    have "(heap s' ! dir s) key = Some (Directory (length h))"
      using descend(2) v by (simp add: assign_same)
    moreover have "heap s' ! length h = Map.empty"
      using descend(2) v by (simp add: assign_other)
    moreover have "length h < length (heap s')"
      using descend(2) by (simp add: assign_length)
    ultimately show ?thesis using descend(1) len k by auto
  next
    case sibling
    show ?thesis
    proof (cases "HasSuffix (prevName s) ''/''")
      case True
      with c have val: "val = Directory (length (heap s))" and h: "h = heap s @ [Map.empty]"
        by (simp_all add: classify_Directory)
      have "(heap s' ! dir s) key = Some (Directory (length (heap s)))"
        using sibling(2) v val by (simp add: assign_same)
      moreover have "heap s' ! length (heap s) = Map.empty"
        using sibling(2) assms(2) h by (simp add: assign_other)
      moreover have "length (heap s) < length (heap s')"
        using sibling(2) h by (simp add: assign_length)
      ultimately show ?thesis using True k by auto
    next
      case False
      with c have "val = File" "key = prevName s" by (simp_all add: classify_File)
      with sibling v False show ?thesis by (simp add: assign_same)
    qed
  next
    case ascend
    show ?thesis
    proof (cases "HasSuffix (prevName s) ''/''")
      case True
      with c have val: "val = Directory (length (heap s))" and h: "h = heap s @ [Map.empty]"
        by (simp_all add: classify_Directory)
      have "(heap s' ! dir s) key = Some (Directory (length (heap s)))"
        using ascend(3) v val by (simp add: assign_same)
      moreover have "heap s' ! length (heap s) = Map.empty"
        using ascend(3) assms(2) h by (simp add: assign_other)
      moreover have "length (heap s) < length (heap s')"
        using ascend(3) h by (simp add: assign_length)
      ultimately show ?thesis using True k by auto
    next
      case False
      with c have "val = File" "key = prevName s" by (simp_all add: classify_File)
      with ascend v False show ?thesis by (simp add: assign_same)
    qed
  qed
qed

lemma HasSuffix_rev: "HasSuffix s sfx = prefix (rev sfx) (rev s)"
  by (simp add: HasSuffix_def suffix_to_prefix)

theorem insert_prev_classification_witness:
  "prevName ((start [Map.empty] 0 0 (NewReader []))\<lparr>prevName := ''a/''\<rparr>) \<noteq> [] \<and>
   insert_prev ((start [Map.empty] 0 0 (NewReader []))\<lparr>prevName := ''a/''\<rparr>) \<noteq> None \<and>
   (\<exists>d. (heap (the (insert_prev ((start [Map.empty] 0 0 (NewReader []))\<lparr>prevName := ''a/''\<rparr>))) ! 0)
          ''a'' = Some (Directory d) \<and> 1 \<le> d \<and>
        heap (the (insert_prev ((start [Map.empty] 0 0 (NewReader []))\<lparr>prevName := ''a/''\<rparr>))) ! d
          = Map.empty)"
proof -
  let ?s = "(start [Map.empty] 0 0 (NewReader []))\<lparr>prevName := ''a/''\<rparr>"
  have n: "prevName ?s \<noteq> []" by simp
  have v: "dir ?s < length (heap ?s)" by (simp add: start_def)
  have c: "classify (heap ?s) (prevName ?s) = (''a'', Directory 1, [Map.empty, Map.empty])"
    by (simp add: start_def classify_def HasSuffix_rev TrimRight_def new_Directory_def)
  have e: "depth ?s = prevDepth ?s" by (simp add: start_def)
  have i: "insert_prev ?s = Some (?s\<lparr>heap := assign [Map.empty, Map.empty] (dir ?s) ''a'' (Directory 1)\<rparr>)"
    by (rule insert_prev_sibling [OF n c e])
  have t: "the (insert_prev ?s) = ?s\<lparr>heap := assign [Map.empty, Map.empty] (dir ?s) ''a'' (Directory 1)\<rparr>"
    by (simp only: i option.sel)
  from insert_prev_classification [OF n v i]
  have "\<exists>d. (heap (the (insert_prev ?s)) ! 0) ''a'' = Some (Directory d) \<and> 1 \<le> d \<and>
          heap (the (insert_prev ?s)) ! d = Map.empty"
    unfolding t by (auto simp add: HasSuffix_rev TrimRight_def start_def)
  moreover have "insert_prev ?s \<noteq> None" by (simp only: i) simp
  ultimately show ?thesis using n by blast
qed

text \<open>
  C1. The claim says that on an ascent the current directory becomes the directory then at
  the top of the stack. In the code a descent pushes the directory that was current, not
  the new one, and an ascent makes the lowest entry it cuts off the current directory.
  After the lines \<open>a\<close>, \<open>\tb\<close>, \<open>\t\tc\<close> the current directory is \<open>b\<close> (2) and the
  stack is root, root, \<open>a\<close>; the ascent at \<open>\td\<close> leaves the stack root, root and makes
  \<open>a\<close> (1) the current directory, while the top of the stack is the root (0).
\<close>

theorem insert_prev_top_counterexample:
  "(case after 3 Tab (start [Map.empty] 0 0 (NewReader (unlines
            [''a'', [CHR 0x09] @ ''b'', [CHR 0x09, CHR 0x09] @ ''c'', [CHR 0x09] @ ''d''])))
    of None \<Rightarrow> False
     | Some s \<Rightarrow> prevDepth s = 2 \<and> glob s = [0, 0, 1] \<and> dir s = 2) \<and>
   (case after 4 Tab (start [Map.empty] 0 0 (NewReader (unlines
            [''a'', [CHR 0x09] @ ''b'', [CHR 0x09, CHR 0x09] @ ''c'', [CHR 0x09] @ ''d''])))
    of None \<Rightarrow> False
     | Some s \<Rightarrow> prevDepth s = 1 \<and> glob s = [0, 0] \<and> dir s = 1 \<and> dir s \<noteq> last (glob s))"
  by code_simp

text \<open>
  C1, as the code has it. With a previous node buffered and inserted under the name and
  with the value of lines 119 to 123: if the line is deeper than the previous one, the
  entry is a new empty directory, the current directory is pushed and the new directory
  becomes current; if it is as deep, the value is inserted and nothing else changes; if
  it is less deep by fewer levels than the stack has entries, the value is inserted, the
  stack is cut back by \<open>prevDepth - depth\<close> entries, and the current directory becomes
  the lowest entry cut off: the entry of the old stack at the index that is the length of
  the stack that remains.
\<close>

theorem insert_prev_fold:
  assumes "prevName s \<noteq> []" and "dir s < length (heap s)"
    and "classify (heap s) (prevName s) = (key, val, h)"
  shows "(depth s > prevDepth s \<longrightarrow>
            (\<exists>s'. insert_prev s = Some s' \<and> (heap s' ! dir s) key = Some (Directory (dir s')) \<and>
                  heap s' ! dir s' = Map.empty \<and> length (heap s) \<le> dir s' \<and>
                  glob s' = glob s @ [dir s])) \<and>
         (depth s = prevDepth s \<longrightarrow>
            (\<exists>s'. insert_prev s = Some s' \<and> (heap s' ! dir s) key = Some val \<and>
                  glob s' = glob s \<and> dir s' = dir s)) \<and>
         (depth s < prevDepth s \<and> prevDepth s - depth s < int (length (glob s)) \<longrightarrow>
            (\<exists>s'. insert_prev s = Some s' \<and> (heap s' ! dir s) key = Some val \<and>
                  int (length (glob s')) = int (length (glob s)) - (prevDepth s - depth s) \<and>
                  glob s' = take (length (glob s')) (glob s) \<and>
                  dir s' = glob s ! length (glob s')))"
proof (intro conjI impI)
  from classify_length [OF assms(3)] assms(2)
  have len: "length (heap s) \<le> length h" and v: "dir s < length h" by simp_all
  {
    assume d: "depth s > prevDepth s"
    let ?s' = "s\<lparr>heap := assign (h @ [Map.empty]) (dir s) key (Directory (length h)),
                  glob := glob s @ [dir s], dir := length h\<rparr>"
    have "insert_prev s = Some ?s'"
      by (rule insert_prev_descend [OF assms(1,3) d])
    moreover have "(heap ?s' ! dir s) key = Some (Directory (dir ?s'))"
      using v by (simp add: assign_same)
    moreover have "heap ?s' ! dir ?s' = Map.empty"
      using v by (simp add: assign_other)
    moreover have "length (heap s) \<le> dir ?s'" using len by simp
    moreover have "glob ?s' = glob s @ [dir s]" by simp
    ultimately show "\<exists>s'. insert_prev s = Some s' \<and>
        (heap s' ! dir s) key = Some (Directory (dir s')) \<and> heap s' ! dir s' = Map.empty \<and>
        length (heap s) \<le> dir s' \<and> glob s' = glob s @ [dir s]"
      by blast
  }
  {
    assume d: "depth s = prevDepth s"
    let ?s' = "s\<lparr>heap := assign h (dir s) key val\<rparr>"
    have "insert_prev s = Some ?s'"
      by (rule insert_prev_sibling [OF assms(1,3) d])
    moreover have "(heap ?s' ! dir s) key = Some val"
      using v by (simp add: assign_same)
    moreover have "glob ?s' = glob s" "dir ?s' = dir s" by simp_all
    ultimately show "\<exists>s'. insert_prev s = Some s' \<and> (heap s' ! dir s) key = Some val \<and>
                  glob s' = glob s \<and> dir s' = dir s"
      by blast
  }
  {
    assume "depth s < prevDepth s \<and> prevDepth s - depth s < int (length (glob s))"
    then have d: "depth s < prevDepth s"
      and w: "prevDepth s - depth s < int (length (glob s))" by simp_all
    let ?n = "cut_index s"
    let ?s' = "s\<lparr>heap := assign h (dir s) key val, dir := glob s ! ?n,
                  glob := take ?n (glob s)\<rparr>"
    from w have n: "?n = nat (int (length (glob s)) - (prevDepth s - depth s))"
      by (intro cut_index_no_wrap) simp
    with d w have lt: "?n < length (glob s)" by simp
    from n w have ln: "int ?n = int (length (glob s)) - (prevDepth s - depth s)" by simp
    have "insert_prev s = Some ?s'"
      by (rule insert_prev_ascend [OF assms(1,3) d lt])
    moreover have "(heap ?s' ! dir s) key = Some val"
      using v by (simp add: assign_same)
    moreover have "length (glob ?s') = ?n" using lt by simp
    moreover from this have "glob ?s' = take (length (glob ?s')) (glob s)" by simp
    moreover have "dir ?s' = glob s ! length (glob ?s')" using lt by simp
    ultimately show "\<exists>s'. insert_prev s = Some s' \<and> (heap s' ! dir s) key = Some val \<and>
                  int (length (glob s')) = int (length (glob s)) - (prevDepth s - depth s) \<and>
                  glob s' = take (length (glob s')) (glob s) \<and>
                  dir s' = glob s ! length (glob s')"
      using ln by (intro exI [of _ ?s']) simp
  }
qed

theorem insert_prev_fold_witness:
  "prevName ((start [Map.empty, Map.empty, Map.empty] 0 2 (NewReader []))
       \<lparr>glob := [0, 0, 1], prevName := ''c'', prevDepth := 2, depth := 1\<rparr>) \<noteq> [] \<and>
   (\<exists>s'. insert_prev ((start [Map.empty, Map.empty, Map.empty] 0 2 (NewReader []))
            \<lparr>glob := [0, 0, 1], prevName := ''c'', prevDepth := 2, depth := 1\<rparr>) = Some s' \<and>
         (heap s' ! 2) ''c'' = Some File \<and> glob s' = [0, 0] \<and> dir s' = 1)"
proof -
  let ?s = "(start [Map.empty, Map.empty, Map.empty] 0 2 (NewReader []))
       \<lparr>glob := [0, 0, 1], prevName := ''c'', prevDepth := 2, depth := 1\<rparr>"
  have n: "prevName ?s \<noteq> []" by simp
  have v: "dir ?s < length (heap ?s)" by (simp add: start_def)
  have c: "classify (heap ?s) (prevName ?s) = (''c'', File, heap ?s)"
    by (simp add: start_def classify_def HasSuffix_rev)
  have d: "depth ?s < prevDepth ?s \<and> prevDepth ?s - depth ?s < int (length (glob ?s))"
    by simp
  from insert_prev_fold [OF n v c, THEN conjunct2, THEN conjunct2, rule_format, OF d]
  obtain s' where s': "insert_prev ?s = Some s'" "(heap s' ! dir ?s) ''c'' = Some File"
    "int (length (glob s')) = int (length (glob ?s)) - (prevDepth ?s - depth ?s)"
    "glob s' = take (length (glob s')) (glob ?s)"
    "dir s' = glob ?s ! length (glob s')"
    by blast
  from s'(3) have l: "length (glob s') = 2" by simp
  from s'(1,2) s'(4,5) [unfolded l]
  have "insert_prev ?s = Some s' \<and> (heap s' ! 2) ''c'' = Some File \<and>
             glob s' = [0, 0] \<and> dir s' = 1"
    by (simp add: start_def)
  with n show ?thesis by blast
qed

section \<open>The ancestor stack\<close>

lemma scan_keeps:
  "heap (scan ct s) = heap s \<and> dir (scan ct s) = dir s \<and> glob (scan ct s) = glob s \<and>
   prevName (scan ct s) = prevName s \<and> prevDepth (scan ct s) = prevDepth s \<and>
   fs (scan ct s) = fs s"
proof -
  obtain l e b where r: "ReadBytes (buf s) = (l, e, b)"
    by (cases "ReadBytes (buf s)") auto
  obtain d n e' where p: "ct (TrimRightSpace l) = (d, n, e')"
    by (cases "ct (TrimRightSpace l)") auto
  show ?thesis
  proof (cases "TrimSpace l = []")
    case True
    have "scan ct s = s\<lparr>buf := Discard b, err := Some EOF, line := []\<rparr>"
      using r True by (rule scan_blank)
    then show ?thesis by simp
  next
    case False
    have "scan ct s = s\<lparr>buf := b, line := l, depth := d, name := n, err := e'\<rparr>"
      using r False p by (rule scan_parse)
    then show ?thesis by simp
  qed
qed

lemma stack_ok_start: "root < length h \<Longrightarrow> stack_ok root (start h f root b)"
  by (simp add: stack_ok_def start_def)

lemma stack_ok_scan: "stack_ok root (scan ct s) = stack_ok root s"
  by (simp add: stack_ok_def scan_keeps)

lemma stack_ok_insert_prev:
  assumes ok: "stack_ok root s" and nc: "\<not> clamps s" and i: "insert_prev s = Some s'"
  shows "stack_ok root s'"
proof (cases "prevName s = []")
  case True
  with i ok show ?thesis by (simp add: insert_prev_skip)
next
  case False
  obtain key val h where c: "classify (heap s) (prevName s) = (key, val, h)"
    by (cases "classify (heap s) (prevName s)") auto
  from classify_length [OF c] have len: "length (heap s) \<le> length h" by simp
  from ok obtain g0 gs where g: "glob s = g0 # gs"
    by (cases "glob s") (auto simp: stack_ok_def)
  from ok g have g0: "g0 = root" and hd: "hd (gs @ [dir s]) = root"
    and dist: "distinct (gs @ [dir s])" and v: "dir s < length (heap s)"
    and b0: "g0 < length (heap s)" and bs: "\<forall>a \<in> set gs. a < length (heap s)"
    by (simp_all add: stack_ok_def)
  from False c i show ?thesis
  proof (cases rule: insert_prev_cases)
    case descend
    have "length h \<notin> set gs" using bs len by auto
    moreover have "length h \<noteq> dir s" using v len by simp
    moreover have "hd ((gs @ [dir s]) @ [length h]) = root"
      using hd by (cases gs) simp_all
    ultimately show ?thesis
      using descend(2) g g0 dist v b0 bs len
      by (auto simp: stack_ok_def assign_length)
  next
    case sibling
    then show ?thesis
      using g g0 hd dist v b0 bs len by (auto simp: stack_ok_def assign_length)
  next
    case ascend
    let ?n = "cut_index s"
    from nc False ascend(1) have "0 < int (length (glob s)) + depth s - prevDepth s"
      by (simp add: clamps_def)
    then have pos: "0 < ?n" by (simp add: cut_index_no_wrap)
    note lt = ascend(4)
    from pos obtain m where m: "?n = Suc m" by (cases ?n) simp_all
    with lt g have mlt: "m < length gs" by simp
    have s': "glob s' = g0 # take m gs" "dir s' = gs ! m"
      "length (heap s') = length h"
      using ascend(3) g m by (simp_all add: assign_length)
    have t: "take m gs @ [gs ! m] = take (Suc m) gs"
      using mlt by (simp add: take_Suc_conv_app_nth)
    have "hd (take (Suc m) gs) = root"
      using hd mlt by (cases gs) simp_all
    moreover have "distinct (take (Suc m) gs)"
      using dist by (simp add: distinct_take)
    moreover have "gs ! m < length h"
    proof -
      from mlt have "gs ! m \<in> set gs" by (rule nth_mem)
      with bs len show ?thesis by force
    qed
    moreover have "\<forall>a \<in> set (take m gs). a < length h"
      using bs len by (fastforce dest: in_set_takeD)
    ultimately show ?thesis
      using s' g0 b0 len t by (simp add: stack_ok_def)
  qed
qed

lemma body_Continue:
  assumes "body ct s = Continue s'"
  obtains t where "insert_prev (scan ct s) = Some t" and "line t \<noteq> []"
    and "s' = t\<lparr>prevDepth := depth t, prevName := name t\<rparr>"
proof (cases "insert_prev (scan ct s)")
  case None
  with assms show ?thesis by (simp add: body_def)
next
  case (Some t)
  show ?thesis
  proof (cases "line t = []")
    case True
    with assms Some show ?thesis by (simp add: body_def)
  next
    case False
    with assms Some have "s' = t\<lparr>prevDepth := depth t, prevName := name t\<rparr>"
      by (simp add: body_def)
    with Some False that show ?thesis by blast
  qed
qed

lemma stack_ok_body:
  assumes "stack_ok root s" and "\<not> clamps (scan ct s)" and "body ct s = Continue s'"
  shows "stack_ok root s'"
proof -
  from assms(3) obtain t where t: "insert_prev (scan ct s) = Some t"
    and s': "s' = t\<lparr>prevDepth := depth t, prevName := name t\<rparr>"
    by (rule body_Continue)
  from assms(1) have "stack_ok root (scan ct s)" by (simp add: stack_ok_scan)
  from this assms(2) t have "stack_ok root t" by (rule stack_ok_insert_prev)
  with s' show ?thesis by (simp add: stack_ok_def)
qed

lemma stack_ok_after:
  "stack_ok root s0 \<Longrightarrow> within_levels k ct s0 \<Longrightarrow> after k ct s0 = Some s \<Longrightarrow>
   stack_ok root s"
proof (induction k arbitrary: s0)
  case 0
  then show ?case by simp
next
  case (Suc k)
  from Suc.prems(3) obtain s1 where b: "body ct s0 = Continue s1" and a: "after k ct s1 = Some s"
    by (cases "body ct s0") simp_all
  from Suc.prems(2) b have nc: "\<not> clamps (scan ct s0)" and w: "within_levels k ct s1"
    by simp_all
  from Suc.prems(1) nc b have "stack_ok root s1" by (rule stack_ok_body)
  from this w a show ?case by (rule Suc.IH)
qed

lemma stack_ok_top:
  assumes "stack_ok root s"
  shows "(last (glob s) = dir s) = (length (glob s) = 1)"
proof -
  from assms obtain g0 gs where g: "glob s = g0 # gs"
    by (cases "glob s") (auto simp: stack_ok_def)
  from assms g have g0: "g0 = root" and hd: "hd (gs @ [dir s]) = root"
    and dist: "distinct (gs @ [dir s])"
    by (simp_all add: stack_ok_def)
  show ?thesis
  proof (cases gs)
    case Nil
    with g g0 hd show ?thesis by simp
  next
    case (Cons a as)
    then have "last (glob s) \<in> set gs" using g by simp
    with dist have "last (glob s) \<noteq> dir s" by auto
    with g Cons show ?thesis by simp
  qed
qed

text \<open>
  C3. The claim fails after the first descent: after the lines \<open>a\<close> and \<open>\tb\<close> the
  current directory is the new directory \<open>a\<close> (1), while the stack is root, root and its
  top is the root (0). After the lines \<open>\t\ta\<close> and \<open>\tb\<close>, where the ascent cuts as
  many entries as the stack holds, the stack is empty.
\<close>

theorem glob_top_counterexample:
  "(case after 2 Tab (start [Map.empty] 0 0 (NewReader (unlines [''a'', [CHR 0x09] @ ''b''])))
    of None \<Rightarrow> False
     | Some s \<Rightarrow> glob s = [0, 0] \<and> dir s = 1 \<and> last (glob s) \<noteq> dir s) \<and>
   (case after 2 Tab (start [Map.empty] 0 0 (NewReader (unlines
            [[CHR 0x09, CHR 0x09] @ ''a'', [CHR 0x09] @ ''b''])))
    of None \<Rightarrow> False
     | Some s \<Rightarrow> length (glob s) = 0)"
  by code_simp

text \<open>
  C3, as the code has it. After the root is pushed and as long as no ascent has cut the
  whole stack, at the head of every iteration the stack has length at least 1, its bottom
  entry is the root, and its top entry is the current directory exactly when the stack
  has length 1, that is, when no descent is open; with a descent open the top entry is
  another directory than the current one.
\<close>

theorem glob_shape:
  assumes "root < length h" and "within_levels k ct (start h f root b)"
    and "after k ct (start h f root b) = Some s"
  shows "1 \<le> length (glob s) \<and> hd (glob s) = root \<and>
         (last (glob s) = dir s \<longleftrightarrow> length (glob s) = 1)"
proof -
  from assms(1) have "stack_ok root (start h f root b)" by (rule stack_ok_start)
  from this assms(2,3) have ok: "stack_ok root s" by (rule stack_ok_after)
  then have "glob s \<noteq> []" "hd (glob s) = root" by (simp_all add: stack_ok_def)
  moreover from this(1) have "1 \<le> length (glob s)" by (cases "glob s") simp_all
  ultimately show ?thesis using stack_ok_top [OF ok] by simp
qed

theorem glob_shape_witness:
  "within_levels 3 Tab (start [Map.empty] 0 0 (NewReader (unlines
       [''a'', [CHR 0x09] @ ''b'', ''c'']))) \<and>
   \<not> Option.is_none (after 3 Tab (start [Map.empty] 0 0 (NewReader (unlines
       [''a'', [CHR 0x09] @ ''b'', ''c''])))) \<and>
   hd (glob (the (after 3 Tab (start [Map.empty] 0 0 (NewReader (unlines
       [''a'', [CHR 0x09] @ ''b'', ''c''])))))) = 0 \<and>
   last (glob (the (after 3 Tab (start [Map.empty] 0 0 (NewReader (unlines
       [''a'', [CHR 0x09] @ ''b'', ''c''])))))) =
     dir (the (after 3 Tab (start [Map.empty] 0 0 (NewReader (unlines
       [''a'', [CHR 0x09] @ ''b'', ''c''])))))"
proof -
  let ?s0 = "start [Map.empty] 0 0 (NewReader (unlines [''a'', [CHR 0x09] @ ''b'', ''c'']))"
  have r: "(0::nat) < length [Map.empty :: entries]" by simp
  have w: "within_levels 3 Tab ?s0" by code_simp
  have n: "\<not> Option.is_none (after 3 Tab ?s0)" by code_simp
  then have a: "after 3 Tab ?s0 = Some (the (after 3 Tab ?s0))"
    by (simp add: Option.is_none_def)
  have l: "length (glob (the (after 3 Tab ?s0))) = 1" by code_simp
  from glob_shape [OF r w a] l w n show ?thesis by simp
qed

section \<open>Errors in the body and the end of the scan\<close>

lemma scan_blank_err: "line (scan ct s) = [] \<Longrightarrow> err (scan ct s) = Some EOF"
proof -
  assume a: "line (scan ct s) = []"
  obtain l e b where r: "ReadBytes (buf s) = (l, e, b)"
    by (cases "ReadBytes (buf s)") auto
  obtain d n e' where p: "ct (TrimRightSpace l) = (d, n, e')"
    by (cases "ct (TrimRightSpace l)") auto
  show ?thesis
  proof (cases "TrimSpace l = []")
    case True
    have "scan ct s = s\<lparr>buf := Discard b, err := Some EOF, line := []\<rparr>"
      using r True by (rule scan_blank)
    then show ?thesis by simp
  next
    case False
    then have "l \<noteq> []" using TrimSpace_Nil by auto
    moreover have "scan ct s = s\<lparr>buf := b, line := l, depth := d, name := n, err := e'\<rparr>"
      using r False p by (rule scan_parse)
    ultimately show ?thesis using a by simp
  qed
qed

lemma insert_prev_keeps:
  assumes "insert_prev s = Some s'"
  shows "err s' = err s \<and> fs s' = fs s \<and> depth s' = depth s \<and> name s' = name s"
proof (cases "prevName s = []")
  case True
  with assms show ?thesis by (simp add: insert_prev_skip)
next
  case False
  obtain key val h where c: "classify (heap s) (prevName s) = (key, val, h)"
    by (cases "classify (heap s) (prevName s)") auto
  from False c assms show ?thesis
    by (cases rule: insert_prev_cases) simp_all
qed

lemma body_Finished:
  assumes "body ct s = Finished s'"
  shows "err s' = None"
proof (cases "insert_prev (scan ct s)")
  case None
  with assms show ?thesis by (simp add: body_def)
next
  case (Some t)
  show ?thesis
  proof (cases "line t = []")
    case True
    with insert_prev_reads [OF Some] have "line (scan ct s) = []" by simp
    then have "err (scan ct s) = Some EOF" by (rule scan_blank_err)
    with insert_prev_keeps [OF Some] have "err t = Some EOF" by simp
    with assms Some True have "s' = t\<lparr>err := None\<rparr>" by (simp add: body_def)
    then show ?thesis by simp
  next
    case False
    with assms Some show ?thesis by (simp add: body_def)
  qed
qed

text \<open>
  C2. The loop over the body never returns an error: it returns only where the line is
  empty, and there the error has just been set to the end of the stream, which is
  returned as no error. The error of the line parser and the error of a read are
  overwritten by the next read. So a syntax error on a body line does not abort the
  build; the build goes on and returns a tree and no error.
\<close>

theorem loop_returns_no_error:
  "loop ct s = Return h f e b \<Longrightarrow> e = None"
proof (induction ct s rule: loop.induct)
  case (1 ct s)
  show ?case
  proof (cases "body ct s")
    case Panicked
    with "1.prems" show ?thesis by (subst (asm) loop.simps) simp
  next
    case (Finished s')
    with "1.prems" have "e = err s'" by (subst (asm) loop.simps) simp
    with body_Finished [OF Finished] show ?thesis by simp
  next
    case (Continue s')
    with "1.prems" have "loop ct s' = Return h f e b" by (subst (asm) loop.simps) simp
    with Continue show ?thesis by (rule "1.IH")
  qed
qed

theorem loop_returns_no_error_witness:
  "snd (snd (Unix ''   weird line'')) = Some (InvalidSyntax ''   weird line'') \<and>
   (\<exists>h b. UnixTree root_MkdirAll root_lookup (unlines [''.'', ''   weird line''])
           = Return h 0 None b)"
proof -
  let ?s = "start [Map.empty] 0 0 (NewReader (unlines [''   weird line'']))"
  have r: "ReadBytes (NewReader (unlines [''.'', ''   weird line'']))
           = ([CHR ''.'', CHR 0x0A], None, NewReader (unlines [''   weird line'']))"
    by (simp add: ReadBytes_def NewReader_def unlines_def)
  have t: "TrimSpace ([CHR ''.'', CHR 0x0A]) = ''.''"
    by (simp add: TrimSpace_def TrimRightSpace_def space1_def space2_def space3_def)
  have u: "UnixTree root_MkdirAll root_lookup (unlines [''.'', ''   weird line'']) = loop Unix ?s"
    unfolding UnixTree_def Tree_first_line [OF r] t
    by (simp add: root_MkdirAll_def root_lookup_def)
  have c: "(case loop Unix ?s of Panic \<Rightarrow> False | Return h f e b \<Rightarrow> f = 0)"
    by code_simp
  then obtain h e b where l: "loop Unix ?s = Return h 0 e b"
    by (cases "loop Unix ?s") simp_all
  from loop_returns_no_error [OF l] have "e = None" .
  with l u have "\<exists>h b. UnixTree root_MkdirAll root_lookup (unlines [''.'', ''   weird line''])
           = Return h 0 None b"
    by simp
  moreover have "snd (snd (Unix ''   weird line'')) = Some (InvalidSyntax ''   weird line'')"
    by code_simp
  ultimately show ?thesis by simp
qed

lemma loop_after: "after k ct s0 = Some s \<Longrightarrow> loop ct s0 = loop ct s"
proof (induction k arbitrary: s0)
  case 0
  then show ?case by simp
next
  case (Suc k)
  from Suc.prems obtain s1 where b: "body ct s0 = Continue s1" and a: "after k ct s1 = Some s"
    by (cases "body ct s0") simp_all
  from b have "loop ct s0 = loop ct s1" by (subst loop.simps) simp
  with Suc.IH [OF a] show ?case by simp
qed

lemma after_head:
  "depth s0 = prevDepth s0 \<Longrightarrow> after k ct s0 = Some s \<Longrightarrow>
   depth s = prevDepth s \<and> fs s = fs s0"
proof (induction k arbitrary: s0)
  case 0
  then show ?case by simp
next
  case (Suc k)
  from Suc.prems(2) obtain s1 where b: "body ct s0 = Continue s1" and a: "after k ct s1 = Some s"
    by (cases "body ct s0") simp_all
  from b obtain t where t: "insert_prev (scan ct s0) = Some t"
    and s1: "s1 = t\<lparr>prevDepth := depth t, prevName := name t\<rparr>"
    by (rule body_Continue)
  from insert_prev_keeps [OF t] scan_keeps [of ct s0] s1
  have "depth s1 = prevDepth s1" "fs s1 = fs s0" by simp_all
  with Suc.IH [OF _ a] show ?case by simp
qed

text \<open>
  Where the scan reads a line of spaces only, or nothing more, at the head of an
  iteration, the build ends there: the buffered node is inserted into the current
  directory as the sibling case does, the rest of the stream is discarded, and the tree
  is returned with no error.
\<close>

lemma blank_line_ends_build:
  assumes "after k ct (start h f d b0) = Some s"
    and "ReadBytes (buf s) = (l, e, b)" and "TrimSpace l = []"
  shows "loop ct (start h f d b0) =
           Return (if prevName s = [] then heap s
                   else (case classify (heap s) (prevName s) of
                           (key, val, h1) \<Rightarrow> assign h1 (dir s) key val))
                  f None (Discard b)"
proof -
  let ?t = "s\<lparr>buf := Discard b, err := Some EOF, line := []\<rparr>"
  have hd: "depth s = prevDepth s" "fs s = f"
    using after_head [OF _ assms(1)] by (simp_all add: start_def)
  have sc: "scan ct s = ?t"
    using assms(2,3) by (rule scan_blank)
  have l: "loop ct (start h f d b0) = loop ct s"
    using assms(1) by (rule loop_after)
  show ?thesis
  proof (cases "prevName s = []")
    case True
    then have "insert_prev ?t = Some ?t" by (simp add: insert_prev_skip)
    with sc have "body ct s = Finished (?t\<lparr>err := None\<rparr>)" by (simp add: body_def)
    then have "loop ct s = Return (heap s) (fs s) None (Discard b)"
      by (subst loop.simps) simp
    with l hd True show ?thesis by simp
  next
    case False
    obtain key val h1 where c: "classify (heap s) (prevName s) = (key, val, h1)"
      by (cases "classify (heap s) (prevName s)") auto
    have "insert_prev ?t = Some (?t\<lparr>heap := assign h1 (dir ?t) key val\<rparr>)"
      by (rule insert_prev_sibling) (use False c hd in simp_all)
    with sc have "body ct s = Finished (?t\<lparr>heap := assign h1 (dir s) key val, err := None\<rparr>)"
      by (simp add: body_def)
    then have "loop ct s = Return (assign h1 (dir s) key val) (fs s) None (Discard b)"
      by (subst loop.simps) simp
    with l hd False c show ?thesis by simp
  qed
qed

text \<open>
  C9. On the lines \<open>.\<close>, \<open>\t\ta\<close>, \<open>\tb\<close>, \<open>c\<close>, an empty line and \<open>rest\<close> the build
  does not reach the empty line: the ascent at \<open>\tb\<close> cuts the whole stack, and the
  ascent at \<open>c\<close> then indexes the empty stack, which is a run-time panic.
\<close>

theorem TabTree_panics_before_blank_line:
  "TabTree root_MkdirAll root_lookup
     (unlines [''.'', [CHR 0x09, CHR 0x09] @ ''a'', [CHR 0x09] @ ''b'', ''c'', [], ''rest''])
   = Panic"
proof -
  have "(case TabTree root_MkdirAll root_lookup
           (unlines [''.'', [CHR 0x09, CHR 0x09] @ ''a'', [CHR 0x09] @ ''b'', ''c'', [], ''rest''])
         of Panic \<Rightarrow> True | Return h f e b \<Rightarrow> False)"
    by code_simp
  then show ?thesis
    by (cases "TabTree root_MkdirAll root_lookup
           (unlines [''.'', [CHR 0x09, CHR 0x09] @ ''a'', [CHR 0x09] @ ''b'', ''c'', [], ''rest''])")
       simp_all
qed

end
